theory Spec2Isabelle
  imports Complex_Main "HOL-Library.Multiset"
begin

section \<open>The practice session of \<^verbatim>\<open>public/js/practice.js\<close>\<close>

text \<open>
  The class \<^verbatim>\<open>PracticeSession\<close> owns four fields and draws its randomness from
  \<^verbatim>\<open>Math.random()\<close>. The embedding passes the state and the random source explicitly.

  \<^item> Every array the class mutates is a private copy (\<^verbatim>\<open>[...words]\<close>,
    \<^verbatim>\<open>[...this.allWords]\<close>, \<^verbatim>\<open>[...array]\<close>), so arrays are modelled as values
    (HOL lists) and no store is needed.
  \<^item> \<^verbatim>\<open>Math.random()\<close> is modelled as the stream of numbers it will return, one
    per call; ECMAScript promises each of them in \<open>[0, 1)\<close>, which is the predicate
    \<open>wf_rng\<close>.
  \<^item> \<^verbatim>\<open>Math.floor(Math.random() * k)\<close> floors a product of doubles, which is rounded
    to the nearest double; \<open>random_index\<close> floors the exact product. The two can differ
    by one (at the double \<open>0.8333333333333333\<close> and \<open>k = 6\<close> the code draws 5, the exact
    product gives 4), and both lie in \<open>[0, k)\<close>. So what is proved here for every index
    in range holds of the code, and nothing is stated about which number yields which
    index.
  \<^item> \<^verbatim>\<open>console.log\<close> in \<^verbatim>\<open>getNextWord\<close> writes to the console and nowhere else;
    it is left out.
  \<^item> \<^verbatim>\<open>wordsSpoken\<close> is a JavaScript number that only ever holds integers; it is an
    \<open>int\<close> here (the loss of precision of doubles beyond \<open>2^53\<close> is not modelled).
\<close>

subsection \<open>JavaScript values the class handles\<close>

text \<open>A word slot: \<^verbatim>\<open>null\<close>, \<^verbatim>\<open>undefined\<close> (reading index 0 of an empty array) or a string.\<close>

datatype js_word = Null | Undefined | Str string

text \<open>The argument of the constructor: \<^verbatim>\<open>null\<close>, \<^verbatim>\<open>undefined\<close> or an array of strings.\<close>

datatype words_arg = ArgNull | ArgUndefined | ArgWords "string list"

text \<open>\<^verbatim>\<open>throw new Error(msg)\<close>\<close>

datatype error = Error string

subsection \<open>The random source\<close>

type_synonym rng = "nat \<Rightarrow> real"

definition wf_rng :: "rng \<Rightarrow> bool" where
  "wf_rng g \<longleftrightarrow> (\<forall>n. 0 \<le> g n \<and> g n < 1)"

text \<open>\<^verbatim>\<open>Math.random()\<close>: the next number, and the source advanced by one.\<close>

definition random :: "rng \<Rightarrow> real \<times> rng" where
  "random g = (g 0, \<lambda>n. g (Suc n))"

text \<open>\<^verbatim>\<open>Math.floor(Math.random() * k)\<close>\<close>

definition random_index :: "nat \<Rightarrow> rng \<Rightarrow> nat \<times> rng" where
  "random_index k g = (case random g of (r, g') \<Rightarrow> (nat \<lfloor>r * real k\<rfloor>, g'))"

subsection \<open>shuffle\<close>

text \<open>
  \<^verbatim>\<open>[shuffled[i], shuffled[j]] = [shuffled[j], shuffled[i]]\<close>: the right-hand side is
  read first, then index \<open>i\<close> is written, then index \<open>j\<close>.
\<close>

definition exchange :: "nat \<Rightarrow> nat \<Rightarrow> 'a list \<Rightarrow> 'a list" where
  "exchange i j shuffled = shuffled[i := shuffled ! j, j := shuffled ! i]"

text \<open>
  \<^verbatim>\<open>for (let i = shuffled.length - 1; i > 0; i--) { const j = ...; swap }\<close>, the first
  argument being the current value of \<open>i\<close>. For an empty array \<open>i\<close> starts at \<open>-1\<close>
  and the body never runs; \<open>length [] - 1 = 0\<close> on \<open>nat\<close> gives the same.
\<close>

fun shuffle_loop :: "nat \<Rightarrow> 'a list \<Rightarrow> rng \<Rightarrow> 'a list \<times> rng" where
  "shuffle_loop 0 shuffled g = (shuffled, g)"
| "shuffle_loop (Suc i) shuffled g =
     (case random_index (Suc i + 1) g of
        (j, g') \<Rightarrow> shuffle_loop i (exchange (Suc i) j shuffled) g')"

definition shuffle :: "'a list \<Rightarrow> rng \<Rightarrow> 'a list \<times> rng" where
  "shuffle array g = shuffle_loop (length array - 1) array g"

subsection \<open>The session\<close>

record session =
  allWords :: "string list"
  remainingWords :: "string list"
  wordsSpoken :: int
  currentWord :: js_word

definition constructor :: "words_arg \<Rightarrow> rng \<Rightarrow> error + (session \<times> rng)" where
  "constructor arg g =
     (case arg of
        ArgNull \<Rightarrow> Inl (Error ''Cannot create practice session with empty word list'')
      | ArgUndefined \<Rightarrow> Inl (Error ''Cannot create practice session with empty word list'')
      | ArgWords words \<Rightarrow>
          if length words = 0
          then Inl (Error ''Cannot create practice session with empty word list'')
          else (case shuffle words g of
                  (shuffled, g') \<Rightarrow>
                    Inr (\<lparr>allWords = words, remainingWords = shuffled,
                          wordsSpoken = 0, currentWord = Null\<rparr>, g')))"

text \<open>
  \<^verbatim>\<open>array.splice(index, 1)\<close>: the removed elements (none when \<open>index\<close> is past the
  end) and the array that is left.
\<close>

definition splice1 :: "nat \<Rightarrow> 'a list \<Rightarrow> 'a list \<times> 'a list" where
  "splice1 index array = (take 1 (drop index array), take index array @ drop (Suc index) array)"

text \<open>\<^verbatim>\<open>removed[0]\<close>\<close>

definition first_of :: "string list \<Rightarrow> js_word" where
  "first_of removed = (case removed of [] \<Rightarrow> Undefined | w # _ \<Rightarrow> Str w)"

definition getNextWord :: "session \<Rightarrow> rng \<Rightarrow> js_word \<times> session \<times> rng" where
  "getNextWord s g =
     (case (if length (remainingWords s) = 0 then shuffle (allWords s) g
            else (remainingWords s, g)) of
        (pool, g1) \<Rightarrow>
          (case random_index (length pool) g1 of
             (randomIndex, g2) \<Rightarrow>
               (case splice1 randomIndex pool of
                  (removed, rest) \<Rightarrow>
                    (first_of removed,
                     s\<lparr>remainingWords := rest,
                       wordsSpoken := wordsSpoken s + 1,
                       currentWord := first_of removed\<rparr>,
                     g2))))"

definition getTotalWords :: "session \<Rightarrow> nat" where
  "getTotalWords s = length (allWords s)"

definition getWordsSpoken :: "session \<Rightarrow> int" where
  "getWordsSpoken s = wordsSpoken s"

definition getRemainingCount :: "session \<Rightarrow> nat" where
  "getRemainingCount s = length (remainingWords s)"

definition getCurrentWord :: "session \<Rightarrow> js_word" where
  "getCurrentWord s = currentWord s"

definition hasCurrentWord :: "session \<Rightarrow> bool" where
  "hasCurrentWord s \<longleftrightarrow> currentWord s \<noteq> Null"

definition reset :: "session \<Rightarrow> rng \<Rightarrow> session \<times> rng" where
  "reset s g =
     (case shuffle (allWords s) g of
        (shuffled, g') \<Rightarrow>
          (s\<lparr>remainingWords := shuffled, wordsSpoken := 0, currentWord := Null\<rparr>, g'))"

subsection \<open>Sequences of calls\<close>

text \<open>
  A caller holds one session and calls its methods one after the other. A call is one of
  the seven methods; its result is what the method returns.
\<close>

datatype call = GetNextWord | GetTotalWords | GetWordsSpoken | GetRemainingCount
  | GetCurrentWord | HasCurrentWord | Reset

datatype result = RWord js_word | RCount nat | RNumber int | RBool bool | RVoid

fun invoke :: "call \<Rightarrow> session \<Rightarrow> rng \<Rightarrow> result \<times> session \<times> rng" where
  "invoke GetNextWord s g = (case getNextWord s g of (w, s', g') \<Rightarrow> (RWord w, s', g'))"
| "invoke GetTotalWords s g = (RCount (getTotalWords s), s, g)"
| "invoke GetWordsSpoken s g = (RNumber (getWordsSpoken s), s, g)"
| "invoke GetRemainingCount s g = (RCount (getRemainingCount s), s, g)"
| "invoke GetCurrentWord s g = (RWord (getCurrentWord s), s, g)"
| "invoke HasCurrentWord s g = (RBool (hasCurrentWord s), s, g)"
| "invoke Reset s g = (case reset s g of (s', g') \<Rightarrow> (RVoid, s', g'))"

fun run :: "call list \<Rightarrow> session \<Rightarrow> rng \<Rightarrow> result list \<times> session \<times> rng" where
  "run [] s g = ([], s, g)"
| "run (c # cs) s g =
     (case invoke c s g of
        (r, s', g') \<Rightarrow> (case run cs s' g' of (rs, s'', g'') \<Rightarrow> (r # rs, s'', g'')))"

definition results_of :: "call list \<Rightarrow> session \<Rightarrow> rng \<Rightarrow> result list" where
  "results_of cs s g = fst (run cs s g)"

definition state_after :: "call list \<Rightarrow> session \<Rightarrow> rng \<Rightarrow> session" where
  "state_after cs s g = fst (snd (run cs s g))"

definition rng_after :: "call list \<Rightarrow> session \<Rightarrow> rng \<Rightarrow> rng" where
  "rng_after cs s g = snd (snd (run cs s g))"

text \<open>The calls made since the last \<^verbatim>\<open>reset()\<close> (all of them when there was none).\<close>

definition since_reset :: "call list \<Rightarrow> call list" where
  "since_reset cs = rev (takeWhile (\<lambda>c. c \<noteq> Reset) (rev cs))"

text \<open>The result a caller sees when a method returns the string \<open>w\<close>.\<close>

definition word_result :: "string \<Rightarrow> result" where
  "word_result w = RWord (Str w)"

subsection \<open>The shuffle as the specification words it\<close>



subsection \<open>The indices a shuffle draws\<close>


text \<open>The loop of \<^verbatim>\<open>shuffle\<close> run on given indices instead of a random source.\<close>

fun shuffle_with :: "nat \<Rightarrow> nat list \<Rightarrow> 'a list \<Rightarrow> 'a list" where
  "shuffle_with 0 js shuffled = shuffled"
| "shuffle_with (Suc i) [] shuffled = shuffled"
| "shuffle_with (Suc i) (j # js) shuffled = shuffle_with i js (exchange (Suc i) j shuffled)"


subsection \<open>A uniform source of doubles\<close>


section \<open>The random source and the shuffle\<close>

lemma wf_rng_random: "wf_rng g \<Longrightarrow> wf_rng (snd (random g))"
  by (simp add: wf_rng_def random_def)

lemma random_range: "wf_rng g \<Longrightarrow> 0 \<le> fst (random g) \<and> fst (random g) < 1"
  by (simp add: wf_rng_def random_def)

lemma floor_scale_less:
  fixes r :: real
  assumes "0 \<le> r" "r < 1" "0 < k"
  shows "nat \<lfloor>r * real k\<rfloor> < k"
proof -
  have "r * real k < real k" using assms by simp
  then have "\<lfloor>r * real k\<rfloor> < int k" by (simp add: floor_less_iff)
  moreover have "0 \<le> \<lfloor>r * real k\<rfloor>" using assms by simp
  ultimately show ?thesis by linarith
qed

lemma random_index_less: "wf_rng g \<Longrightarrow> 0 < k \<Longrightarrow> fst (random_index k g) < k"
  using random_range [of g] floor_scale_less [of "fst (random g)" k]
  by (auto simp add: random_index_def split: prod.splits)

lemma random_index_wf: "wf_rng g \<Longrightarrow> wf_rng (snd (random_index k g))"
  using wf_rng_random [of g] by (auto simp add: random_index_def split: prod.splits)

lemma length_exchange: "length (exchange i j xs) = length xs"
  by (simp add: exchange_def)

lemma mset_exchange: "i < length xs \<Longrightarrow> j < length xs \<Longrightarrow> mset (exchange i j xs) = mset xs"
  by (simp add: exchange_def mset_swap)

lemma length_shuffle_loop: "length (fst (shuffle_loop i xs g)) = length xs"
  by (induction i xs g rule: shuffle_loop.induct) (simp_all add: length_exchange split: prod.splits)

lemma wf_shuffle_loop: "wf_rng g \<Longrightarrow> wf_rng (snd (shuffle_loop i xs g))"
proof (induction i xs g rule: shuffle_loop.induct)
  case (1 shuffled g)
  then show ?case by simp
next
  case (2 i shuffled g)
  obtain j g' where r: "random_index (Suc i + 1) g = (j, g')" by (cases "random_index (Suc i + 1) g")
  have "wf_rng g'" using random_index_wf [OF "2.prems", of "Suc i + 1"] r by simp
  with 2 r show ?case by simp
qed

lemma mset_shuffle_loop:
  "wf_rng g \<Longrightarrow> i < length xs \<Longrightarrow> mset (fst (shuffle_loop i xs g)) = mset xs"
proof (induction i xs g rule: shuffle_loop.induct)
  case (1 shuffled g)
  then show ?case by simp
next
  case (2 i shuffled g)
  obtain j g' where r: "random_index (Suc i + 1) g = (j, g')" by (cases "random_index (Suc i + 1) g")
  have wf': "wf_rng g'" using random_index_wf [OF "2.prems"(1), of "Suc i + 1"] r by simp
  have "j < Suc i + 1" using random_index_less [OF "2.prems"(1), of "Suc i + 1"] r by simp
  then have j: "j < length shuffled" using "2.prems"(2) by simp
  have "mset (fst (shuffle_loop i (exchange (Suc i) j shuffled) g')) = mset (exchange (Suc i) j shuffled)"
    using "2.IH" [OF r [symmetric] wf'] "2.prems"(2) by (simp add: length_exchange)
  then show ?case using r j "2.prems"(2) by (simp add: mset_exchange)
qed

lemma mset_shuffle: "wf_rng g \<Longrightarrow> mset (fst (shuffle xs g)) = mset xs"
proof (cases xs)
  case Nil
  then show ?thesis by (simp add: shuffle_def)
next
  case (Cons a list)
  assume "wf_rng g"
  then show ?thesis using Cons by (simp add: shuffle_def mset_shuffle_loop)
qed

lemma length_shuffle: "length (fst (shuffle xs g)) = length xs"
  by (simp add: shuffle_def length_shuffle_loop)

lemma wf_shuffle: "wf_rng g \<Longrightarrow> wf_rng (snd (shuffle xs g))"
  by (simp add: shuffle_def wf_shuffle_loop)

section \<open>One draw\<close>

lemma splice1_in_range:
  "i < length xs \<Longrightarrow> splice1 i xs = ([xs ! i], take i xs @ drop (Suc i) xs)"
  by (simp add: splice1_def take_Suc_conv_app_nth [symmetric] Cons_nth_drop_Suc [symmetric])

lemma mset_remove_nth:
  "i < length xs \<Longrightarrow> add_mset (xs ! i) (mset (take i xs @ drop (Suc i) xs)) = mset xs"
proof -
  assume i: "i < length xs"
  have "xs = take i xs @ xs ! i # drop (Suc i) xs" using i by (simp add: id_take_nth_drop [symmetric])
  then have "mset xs = mset (take i xs @ xs ! i # drop (Suc i) xs)" by simp
  then show ?thesis by simp
qed

text \<open>The pool a call of getNextWord draws from, and the source after the refill.\<close>

lemma getNextWord_draw:
  assumes wf: "wf_rng g" and ne: "allWords s \<noteq> []"
  shows "\<exists>pool w. mset pool = mset (if remainingWords s = [] then allWords s else remainingWords s)
      \<and> (remainingWords s \<noteq> [] \<longrightarrow> pool = remainingWords s)
      \<and> (remainingWords s = [] \<longrightarrow> pool = fst (shuffle (allWords s) g))
      \<and> fst (getNextWord s g) = Str w
      \<and> add_mset w (mset (remainingWords (fst (snd (getNextWord s g))))) = mset pool
      \<and> allWords (fst (snd (getNextWord s g))) = allWords s
      \<and> wordsSpoken (fst (snd (getNextWord s g))) = wordsSpoken s + 1
      \<and> currentWord (fst (snd (getNextWord s g))) = Str w
      \<and> wf_rng (snd (snd (getNextWord s g)))"
proof -
  define pg where "pg = (if length (remainingWords s) = 0 then shuffle (allWords s) g
            else (remainingWords s, g))"
  define pool where "pool = fst pg"
  define g1 where "g1 = snd pg"
  have pg: "pg = (pool, g1)" by (simp add: pool_def g1_def)
  have wf1: "wf_rng g1" using wf by (simp add: g1_def pg_def wf_shuffle)
  have mp: "mset pool = mset (if remainingWords s = [] then allWords s else remainingWords s)"
    using wf by (simp add: pool_def pg_def mset_shuffle)
  have pne: "pool \<noteq> []" using mp ne by (auto split: if_splits)
  define i where "i = fst (random_index (length pool) g1)"
  define g2 where "g2 = snd (random_index (length pool) g1)"
  have ri: "random_index (length pool) g1 = (i, g2)" by (simp add: i_def g2_def)
  have i: "i < length pool" using random_index_less [OF wf1, of "length pool"] pne by (simp add: i_def)
  have wf2: "wf_rng g2" using random_index_wf [OF wf1] by (simp add: g2_def)
  have gn: "getNextWord s g = (Str (pool ! i),
     s\<lparr>remainingWords := take i pool @ drop (Suc i) pool, wordsSpoken := wordsSpoken s + 1,
       currentWord := Str (pool ! i)\<rparr>, g2)"
    unfolding getNextWord_def pg_def [symmetric] pg
    by (simp add: ri splice1_in_range [OF i] first_of_def)
  show ?thesis
    apply (rule exI [of _ pool], rule exI [of _ "pool ! i"])
    using mp wf2 mset_remove_nth [OF i]
    by (simp add: gn pool_def pg_def)
qed

section \<open>Sequences of draws\<close>

lemma run_append:
  "run (cs @ ds) s g =
     (case run cs s g of
        (rs, s', g') \<Rightarrow> (case run ds s' g' of (rs', s'', g'') \<Rightarrow> (rs @ rs', s'', g'')))"
  by (induction cs arbitrary: s g) (simp_all split: prod.splits)

lemma results_of_append:
  "results_of (cs @ ds) s g =
     results_of cs s g @ results_of ds (state_after cs s g) (rng_after cs s g)"
  by (simp add: results_of_def state_after_def rng_after_def run_append split: prod.splits)

lemma state_after_append:
  "state_after (cs @ ds) s g = state_after ds (state_after cs s g) (rng_after cs s g)"
  by (simp add: results_of_def state_after_def rng_after_def run_append split: prod.splits)

lemma rng_after_append:
  "rng_after (cs @ ds) s g = rng_after ds (state_after cs s g) (rng_after cs s g)"
  by (simp add: results_of_def state_after_def rng_after_def run_append split: prod.splits)

lemma run_Nil_proj:
  "results_of [] s g = []" "state_after [] s g = s" "rng_after [] s g = g"
  by (simp_all add: results_of_def state_after_def rng_after_def)

lemma run_next_proj:
  "results_of (GetNextWord # cs) s g =
     RWord (fst (getNextWord s g))
       # results_of cs (fst (snd (getNextWord s g))) (snd (snd (getNextWord s g)))"
  "state_after (GetNextWord # cs) s g =
     state_after cs (fst (snd (getNextWord s g))) (snd (snd (getNextWord s g)))"
  "rng_after (GetNextWord # cs) s g =
     rng_after cs (fst (snd (getNextWord s g))) (snd (snd (getNextWord s g)))"
  by (simp_all add: results_of_def state_after_def rng_after_def split: prod.splits)

text \<open>Drawing as many words as the pool holds returns the pool and empties it.\<close>

lemma drain_pool:
  "wf_rng g \<Longrightarrow> allWords s \<noteq> [] \<Longrightarrow> length (remainingWords s) = k \<Longrightarrow>
     mset (results_of (replicate k GetNextWord) s g) = image_mset word_result (mset (remainingWords s))
     \<and> remainingWords (state_after (replicate k GetNextWord) s g) = []
     \<and> allWords (state_after (replicate k GetNextWord) s g) = allWords s
     \<and> wf_rng (rng_after (replicate k GetNextWord) s g)"
proof (induction k arbitrary: s g)
  case 0
  then show ?case by (simp add: run_Nil_proj)
next
  case (Suc k)
  define s' where "s' = fst (snd (getNextWord s g))"
  define g' where "g' = snd (snd (getNextWord s g))"
  from Suc.prems have ne: "remainingWords s \<noteq> []" by auto
  from getNextWord_draw [OF Suc.prems(1,2)] ne
  obtain w where w: "fst (getNextWord s g) = Str w"
    and m: "add_mset w (mset (remainingWords s')) = mset (remainingWords s)"
    and a: "allWords s' = allWords s" and wf': "wf_rng g'"
    by (auto simp: s'_def g'_def)
  have "size (add_mset w (mset (remainingWords s'))) = size (mset (remainingWords s))"
    using m by simp
  then have len: "length (remainingWords s') = k" using Suc.prems(3) by simp
  have ne': "allWords s' \<noteq> []" using a Suc.prems(2) by simp
  note IH = Suc.IH [OF wf' ne' len]
  have "mset (results_of (replicate (Suc k) GetNextWord) s g)
      = add_mset (word_result w) (image_mset word_result (mset (remainingWords s')))"
    using IH w by (simp add: run_next_proj s'_def g'_def word_result_def [symmetric])
  also have "\<dots> = image_mset word_result (add_mset w (mset (remainingWords s')))" by simp
  finally have "mset (results_of (replicate (Suc k) GetNextWord) s g)
      = image_mset word_result (mset (remainingWords s))" using m by simp
  then show ?case using IH a by (simp add: run_next_proj s'_def g'_def)
qed

text \<open>
  A cycle starts where the pool holds all the words (after construction or reset) or is
  empty (the next call refills it).
\<close>

lemma full_cycle:
  assumes wf: "wf_rng g" and ne: "allWords s \<noteq> []"
    and start: "remainingWords s = [] \<or> mset (remainingWords s) = mset (allWords s)"
  shows "mset (results_of (replicate (length (allWords s)) GetNextWord) s g)
        = image_mset word_result (mset (allWords s))
     \<and> remainingWords (state_after (replicate (length (allWords s)) GetNextWord) s g) = []
     \<and> allWords (state_after (replicate (length (allWords s)) GetNextWord) s g) = allWords s
     \<and> wf_rng (rng_after (replicate (length (allWords s)) GetNextWord) s g)"
proof (cases "remainingWords s = []")
  case False
  with start have m: "mset (remainingWords s) = mset (allWords s)" by simp
  then have "length (remainingWords s) = length (allWords s)" by (rule mset_eq_length)
  from drain_pool [OF wf ne this] m show ?thesis by simp
next
  case True
  define s' where "s' = fst (snd (getNextWord s g))"
  define g' where "g' = snd (snd (getNextWord s g))"
  from getNextWord_draw [OF wf ne] True
  obtain w where w: "fst (getNextWord s g) = Str w"
    and m: "add_mset w (mset (remainingWords s')) = mset (allWords s)"
    and a: "allWords s' = allWords s" and wf': "wf_rng g'"
    by (auto simp: s'_def g'_def)
  obtain k where k: "length (allWords s) = Suc k" using ne by (cases "allWords s") auto
  have "size (add_mset w (mset (remainingWords s'))) = size (mset (allWords s))"
    using m by simp
  then have len: "length (remainingWords s') = k" using k by simp
  have ne': "allWords s' \<noteq> []" using a ne by simp
  note D = drain_pool [OF wf' ne' len]
  have "mset (results_of (replicate (Suc k) GetNextWord) s g)
      = add_mset (word_result w) (image_mset word_result (mset (remainingWords s')))"
    using D w by (simp add: run_next_proj s'_def g'_def word_result_def [symmetric])
  also have "\<dots> = image_mset word_result (add_mset w (mset (remainingWords s')))" by simp
  finally have "mset (results_of (replicate (Suc k) GetNextWord) s g)
      = image_mset word_result (mset (allWords s))" using m by simp
  then show ?thesis using D a k by (simp add: run_next_proj s'_def g'_def)
qed

lemma constructor_cycle_start:
  assumes "constructor (ArgWords W) g = Inr (s, g')" and "wf_rng g"
  shows "allWords s = W \<and> W \<noteq> [] \<and> mset (remainingWords s) = mset W \<and> wordsSpoken s = 0
     \<and> currentWord s = Null \<and> wf_rng g'"
  using assms mset_shuffle [of g W] wf_shuffle [of g W]
  by (auto simp: constructor_def split: if_splits prod.splits)

lemma inj_word_result: "inj word_result"
  by (simp add: inj_def word_result_def)

lemma count_list_word_result:
  assumes "mset rs = image_mset word_result (mset W)"
  shows "count_list rs (word_result w) = count_list W w"
proof -
  have "mset rs = mset (map word_result W)" using assms by simp
  then have "count (mset rs) (word_result w) = count (mset (map word_result W)) (word_result w)"
    by simp
  then have "count_list rs (word_result w) = count_list (map word_result W) (word_result w)"
    by (simp only: count_mset)
  then show ?thesis by (simp add: count_list_map_conv [OF inj_word_result])
qed

lemma draws_succeed:
  "wf_rng g \<Longrightarrow> allWords s \<noteq> [] \<Longrightarrow> set (remainingWords s) \<subseteq> set (allWords s) \<Longrightarrow>
     length (results_of (replicate k GetNextWord) s g) = k
     \<and> set (results_of (replicate k GetNextWord) s g) \<subseteq> word_result ` set (allWords s)"
proof (induction k arbitrary: s g)
  case 0
  then show ?case by (simp add: run_Nil_proj)
next
  case (Suc k)
  define s' where "s' = fst (snd (getNextWord s g))"
  define g' where "g' = snd (snd (getNextWord s g))"
  from getNextWord_draw [OF Suc.prems(1,2), folded s'_def g'_def]
  obtain pool w where H:
    "mset pool = mset (if remainingWords s = [] then allWords s else remainingWords s)
      \<and> (remainingWords s \<noteq> [] \<longrightarrow> pool = remainingWords s)
      \<and> (remainingWords s = [] \<longrightarrow> pool = fst (shuffle (allWords s) g))
      \<and> fst (getNextWord s g) = Str w
      \<and> add_mset w (mset (remainingWords s')) = mset pool
      \<and> allWords s' = allWords s
      \<and> wordsSpoken s' = wordsSpoken s + 1
      \<and> currentWord s' = Str w
      \<and> wf_rng g'"
    by (elim exE)
  have p: "mset pool = mset (if remainingWords s = [] then allWords s else remainingWords s)"
    and w: "fst (getNextWord s g) = Str w"
    and m: "add_mset w (mset (remainingWords s')) = mset pool"
    and a: "allWords s' = allWords s" and wf': "wf_rng g'"
    using H by blast+
  have "set pool = set (if remainingWords s = [] then allWords s else remainingWords s)"
    using p by (rule mset_eq_setD)
  then have ps: "set pool \<subseteq> set (allWords s)" using Suc.prems(3) by (auto split: if_splits)
  have "set_mset (add_mset w (mset (remainingWords s'))) = set pool" using m by simp
  then have in_pool: "w \<in> set pool" "set (remainingWords s') \<subseteq> set pool" by auto
  have sub': "set (remainingWords s') \<subseteq> set (allWords s')" using in_pool ps a by auto
  have ne': "allWords s' \<noteq> []" using a Suc.prems(2) by simp
  note IH = Suc.IH [OF wf' ne' sub']
  have "word_result w \<in> word_result ` set (allWords s)" using in_pool ps by auto
  then show ?case using IH a w
    by (simp add: run_next_proj s'_def g'_def word_result_def [symmetric])
qed

lemma after_cycles:
  "wf_rng g \<Longrightarrow> allWords s \<noteq> [] \<Longrightarrow>
   remainingWords s = [] \<or> mset (remainingWords s) = mset (allWords s) \<Longrightarrow>
     allWords (state_after (replicate (c * length (allWords s)) GetNextWord) s g) = allWords s
     \<and> wf_rng (rng_after (replicate (c * length (allWords s)) GetNextWord) s g)
     \<and> (remainingWords (state_after (replicate (c * length (allWords s)) GetNextWord) s g) = []
        \<or> mset (remainingWords (state_after (replicate (c * length (allWords s)) GetNextWord) s g))
           = mset (allWords s))
     \<and> (0 < c \<longrightarrow>
          remainingWords (state_after (replicate (c * length (allWords s)) GetNextWord) s g) = [])"
proof (induction c arbitrary: s g)
  case 0
  then show ?case by (simp add: run_Nil_proj)
next
  case (Suc c)
  let ?n = "length (allWords s)"
  define s1 where "s1 = state_after (replicate ?n GetNextWord) s g"
  define g1 where "g1 = rng_after (replicate ?n GetNextWord) s g"
  from full_cycle [OF Suc.prems]
  have a1: "allWords s1 = allWords s" and r1: "remainingWords s1 = []" and wf1: "wf_rng g1"
    by (simp_all add: s1_def g1_def)
  have ne1: "allWords s1 \<noteq> []" using a1 Suc.prems(2) by simp
  have st1: "remainingWords s1 = [] \<or> mset (remainingWords s1) = mset (allWords s1)"
    using r1 by simp
  note IH = Suc.IH [OF wf1 ne1 st1]
  have split: "replicate (Suc c * ?n) GetNextWord
      = replicate ?n GetNextWord @ replicate (c * ?n) GetNextWord"
    by (simp add: replicate_add)
  have sa: "state_after (replicate (Suc c * ?n) GetNextWord) s g
      = state_after (replicate (c * ?n) GetNextWord) s1 g1"
    unfolding split by (simp add: state_after_append s1_def g1_def)
  have ra: "rng_after (replicate (Suc c * ?n) GetNextWord) s g
      = rng_after (replicate (c * ?n) GetNextWord) s1 g1"
    unfolding split by (simp add: rng_after_append s1_def g1_def)
  show ?case
  proof (cases "c = 0")
    case True
    then show ?thesis using a1 r1 wf1 by (simp add: s1_def g1_def)
  next
    case False
    then show ?thesis using IH a1 unfolding sa ra by simp
  qed
qed

section \<open>Frames of the methods\<close>

lemma run_Cons_proj:
  "results_of (c # cs) s g =
     fst (invoke c s g) # results_of cs (fst (snd (invoke c s g))) (snd (snd (invoke c s g)))"
  "state_after (c # cs) s g = state_after cs (fst (snd (invoke c s g))) (snd (snd (invoke c s g)))"
  "rng_after (c # cs) s g = rng_after cs (fst (snd (invoke c s g))) (snd (snd (invoke c s g)))"
  by (simp_all add: results_of_def state_after_def rng_after_def split: prod.splits)

lemma getNextWord_fields:
  "allWords (fst (snd (getNextWord s g))) = allWords s"
  "wordsSpoken (fst (snd (getNextWord s g))) = wordsSpoken s + 1"
  "currentWord (fst (snd (getNextWord s g))) = fst (getNextWord s g)"
  "fst (getNextWord s g) \<noteq> Null"
  by (simp_all add: getNextWord_def first_of_def split: prod.splits list.splits)

lemma reset_fields:
  "allWords (fst (reset s g)) = allWords s"
  "wordsSpoken (fst (reset s g)) = 0"
  "currentWord (fst (reset s g)) = Null"
  "remainingWords (fst (reset s g)) = fst (shuffle (allWords s) g)"
  "snd (reset s g) = snd (shuffle (allWords s) g)"
  by (simp_all add: reset_def split: prod.splits)

lemma invoke_proj:
  "invoke GetNextWord s g =
     (RWord (fst (getNextWord s g)), fst (snd (getNextWord s g)), snd (snd (getNextWord s g)))"
  "invoke Reset s g = (RVoid, fst (reset s g), snd (reset s g))"
  by (simp_all split: prod.splits)

lemma invoke_allWords: "allWords (fst (snd (invoke c s g))) = allWords s"
  by (cases c) (simp_all add: invoke_proj getNextWord_fields reset_fields del: invoke.simps(1,7))

lemma invoke_wordsSpoken:
  "wordsSpoken (fst (snd (invoke c s g))) =
     (if c = GetNextWord then wordsSpoken s + 1 else if c = Reset then 0 else wordsSpoken s)"
  by (cases c) (simp_all add: invoke_proj getNextWord_fields reset_fields del: invoke.simps(1,7))

lemma invoke_currentWord:
  "currentWord (fst (snd (invoke c s g))) =
     (if c = GetNextWord then fst (getNextWord s g) else if c = Reset then Null else currentWord s)"
  by (cases c) (simp_all add: invoke_proj getNextWord_fields reset_fields del: invoke.simps(1,7))

lemma run_allWords: "allWords (state_after cs s g) = allWords s"
  by (induction cs arbitrary: s g) (simp_all add: run_Nil_proj run_Cons_proj invoke_allWords)

lemma run_wordsSpoken:
  "Reset \<notin> set cs \<Longrightarrow>
     wordsSpoken (state_after cs s g) = wordsSpoken s + int (count_list cs GetNextWord)"
  by (induction cs arbitrary: s g) (auto simp add: run_Nil_proj run_Cons_proj invoke_wordsSpoken)

lemma run_currentWord:
  "Reset \<notin> set cs \<Longrightarrow>
     currentWord (state_after cs s g) \<noteq> Null \<longleftrightarrow> GetNextWord \<in> set cs \<or> currentWord s \<noteq> Null"
  by (induction cs arbitrary: s g)
    (auto simp add: run_Nil_proj run_Cons_proj invoke_currentWord getNextWord_fields)

lemma since_reset_none: "Reset \<notin> set cs \<Longrightarrow> since_reset cs = cs"
proof -
  assume "Reset \<notin> set cs"
  then have "takeWhile (\<lambda>c. c \<noteq> Reset) (rev cs) = rev cs"
    by (auto simp add: takeWhile_eq_all_conv)
  then show ?thesis by (simp only: since_reset_def rev_rev_ident)
qed

lemma since_reset_last: "Reset \<notin> set bs \<Longrightarrow> since_reset (as @ Reset # bs) = bs"
proof -
  assume "Reset \<notin> set bs"
  then have "takeWhile (\<lambda>c. c \<noteq> Reset) (rev bs @ Reset # rev as) = rev bs"
    by (auto simp add: takeWhile_tail takeWhile_eq_all_conv)
  then show ?thesis by (simp add: since_reset_def)
qed

lemma state_after_last_reset:
  "state_after (as @ Reset # bs) s g =
     state_after bs (fst (reset (state_after as s g) (rng_after as s g)))
       (snd (reset (state_after as s g) (rng_after as s g)))"
  by (simp add: state_after_append run_Cons_proj split: prod.splits)

text \<open>The counter and the current word of any session, from the calls made on it.\<close>

lemma run_wordsSpoken_since_reset:
  "wordsSpoken (state_after cs s g) =
     (if Reset \<in> set cs then 0 else wordsSpoken s) + int (count_list (since_reset cs) GetNextWord)"
proof (cases "Reset \<in> set cs")
  case False
  then show ?thesis by (simp add: run_wordsSpoken since_reset_none)
next
  case True
  then obtain as bs where cs: "cs = as @ Reset # bs" and bs: "Reset \<notin> set bs"
    by (auto dest: split_list_last)
  show ?thesis unfolding cs
    by (simp add: state_after_last_reset since_reset_last [OF bs] run_wordsSpoken [OF bs] reset_fields)
qed

lemma run_currentWord_since_reset:
  "currentWord (state_after cs s g) \<noteq> Null \<longleftrightarrow>
     GetNextWord \<in> set (since_reset cs) \<or> (Reset \<notin> set cs \<and> currentWord s \<noteq> Null)"
proof (cases "Reset \<in> set cs")
  case False
  then show ?thesis by (simp add: run_currentWord since_reset_none)
next
  case True
  then obtain as bs where cs: "cs = as @ Reset # bs" and bs: "Reset \<notin> set bs"
    by (auto dest: split_list_last)
  show ?thesis unfolding cs
    by (simp add: state_after_last_reset since_reset_last [OF bs] run_currentWord [OF bs] reset_fields)
qed

lemma run_accessors:
  "run (replicate k GetCurrentWord) s g = (replicate k (RWord (currentWord s)), s, g)"
  by (induction k) (simp_all add: getCurrentWord_def)

lemma invoke_pool_invariant:
  assumes wf: "wf_rng g" and ne: "allWords s \<noteq> []"
    and sub: "mset (remainingWords s) \<subseteq># mset (allWords s)"
  shows "mset (remainingWords (fst (snd (invoke c s g)))) \<subseteq># mset (allWords s)
     \<and> wf_rng (snd (snd (invoke c s g)))"
proof (cases c)
  case GetNextWord
  from getNextWord_draw [OF wf ne]
  obtain pool w where H:
    "mset pool = mset (if remainingWords s = [] then allWords s else remainingWords s)
      \<and> add_mset w (mset (remainingWords (fst (snd (getNextWord s g))))) = mset pool
      \<and> wf_rng (snd (snd (getNextWord s g)))"
    by blast
  have "mset pool \<subseteq># mset (allWords s)" using H sub by (simp split: if_splits)
  moreover have "mset (remainingWords (fst (snd (getNextWord s g)))) \<subseteq># mset pool"
  proof -
    have "mset (remainingWords (fst (snd (getNextWord s g))))
        \<subseteq># add_mset w (mset (remainingWords (fst (snd (getNextWord s g)))))"
      by simp
    then show ?thesis using H by simp
  qed
  ultimately have "mset (remainingWords (fst (snd (getNextWord s g)))) \<subseteq># mset (allWords s)"
    using subset_mset.order_trans by blast
  then show ?thesis using H GetNextWord by (simp add: invoke_proj del: invoke.simps(1))
next
  case Reset
  then show ?thesis using wf
    by (simp add: invoke_proj reset_fields mset_shuffle wf_shuffle del: invoke.simps(7))
next
  case GetTotalWords
  then show ?thesis using wf sub by simp
next
  case GetWordsSpoken
  then show ?thesis using wf sub by simp
next
  case GetRemainingCount
  then show ?thesis using wf sub by simp
next
  case GetCurrentWord
  then show ?thesis using wf sub by simp
next
  case HasCurrentWord
  then show ?thesis using wf sub by simp
qed

lemma run_pool_invariant:
  "wf_rng g \<Longrightarrow> allWords s \<noteq> [] \<Longrightarrow> mset (remainingWords s) \<subseteq># mset (allWords s) \<Longrightarrow>
     mset (remainingWords (state_after cs s g)) \<subseteq># mset (allWords s)
     \<and> wf_rng (rng_after cs s g)"
proof (induction cs arbitrary: s g)
  case Nil
  then show ?case by (simp add: run_Nil_proj)
next
  case (Cons c cs)
  from invoke_pool_invariant [OF Cons.prems, of c]
  have 1: "mset (remainingWords (fst (snd (invoke c s g)))) \<subseteq># mset (allWords (fst (snd (invoke c s g))))"
    and 2: "wf_rng (snd (snd (invoke c s g)))"
    by (simp_all add: invoke_allWords)
  have 3: "allWords (fst (snd (invoke c s g))) \<noteq> []" using Cons.prems(2) by (simp add: invoke_allWords)
  from Cons.IH [OF 2 3 1] show ?case by (simp add: run_Cons_proj invoke_allWords)
qed

lemma getNextWord_succeeds:
  assumes wf: "wf_rng g" and ne: "allWords s \<noteq> []"
    and sub: "mset (remainingWords s) \<subseteq># mset (allWords s)"
  shows "\<exists>w. w \<in> set (allWords s) \<and> fst (getNextWord s g) = Str w"
proof -
  from getNextWord_draw [OF wf ne]
  obtain pool w where H:
    "mset pool = mset (if remainingWords s = [] then allWords s else remainingWords s)
      \<and> fst (getNextWord s g) = Str w
      \<and> add_mset w (mset (remainingWords (fst (snd (getNextWord s g))))) = mset pool"
    by blast
  have "mset pool \<subseteq># mset (allWords s)" using H sub by (simp split: if_splits)
  then have "set pool \<subseteq> set (allWords s)" using set_mset_mono by fastforce
  moreover have "w \<in># mset pool" using H by (metis union_single_eq_member)
  ultimately have "w \<in> set (allWords s)" by auto
  then show ?thesis using H by blast
qed

lemma reachable_next_word_succeeds:
  assumes "wf_rng g0" and "constructor (ArgWords W) g0 = Inr (s, g)"
  shows "\<exists>w. w \<in> set W
     \<and> fst (getNextWord (state_after cs s g) (rng_after cs s g)) = Str w"
proof -
  from constructor_cycle_start [OF assms(2,1)]
  have a: "allWords s = W" and ne: "W \<noteq> []" and m: "mset (remainingWords s) = mset W"
    and wf: "wf_rng g" by simp_all
  have ne': "allWords s \<noteq> []" using a ne by simp
  have sub: "mset (remainingWords s) \<subseteq># mset (allWords s)" using m a by simp
  from run_pool_invariant [OF wf ne' sub, of cs]
  have 1: "mset (remainingWords (state_after cs s g)) \<subseteq># mset (allWords (state_after cs s g))"
    and 2: "wf_rng (rng_after cs s g)" by (simp_all add: run_allWords)
  have 3: "allWords (state_after cs s g) \<noteq> []" using ne' by (simp add: run_allWords)
  from getNextWord_succeeds [OF 2 3 1] show ?thesis using a by (simp add: run_allWords)
qed

section \<open>The shuffle and the indices it draws\<close>








lemma length_shuffle_with: "length (shuffle_with i js a) = length a"
  by (induction i js a rule: shuffle_with.induct) (simp_all add: length_exchange)



















section \<open>Evaluation\<close>

text \<open>The definitions unfolded to evaluate the methods on a concrete session.\<close>

lemmas eval_defs = results_of_def state_after_def rng_after_def getNextWord_def shuffle_def
  random_index_def random_def exchange_def splice1_def first_of_def reset_def constructor_def
  getWordsSpoken_def getTotalWords_def getRemainingCount_def getCurrentWord_def hasCurrentWord_def
  wf_rng_def

section \<open>Cycles\<close>

text \<open>
  C1: let \<open>W\<close> be a non-empty word list of size \<open>n\<close>. Starting from the session the
  constructor returns for \<open>W\<close>, or from any state of a session over \<open>W\<close> whose pool is
  empty (a reshuffle point), \<open>n\<close> successive calls of \<^verbatim>\<open>getNextWord\<close> return exactly
  the multiset of \<open>W\<close>: \<open>n\<close> results, every word as often as it occurs in \<open>W\<close>, and
  every result a word of \<^verbatim>\<open>allWords\<close>. The random source returns numbers in \<open>[0, 1)\<close>.
\<close>

theorem next_word_cycle_exactly_once:
  assumes "wf_rng g0" and "wf_rng g"
    and "constructor (ArgWords W) g0 = Inr (s, g)
         \<or> (allWords s = W \<and> W \<noteq> [] \<and> remainingWords s = [])"
  shows "mset (results_of (replicate (length W) GetNextWord) s g) = mset (map word_result W)
     \<and> length (results_of (replicate (length W) GetNextWord) s g) = length W
     \<and> (\<forall>w. count_list (results_of (replicate (length W) GetNextWord) s g) (word_result w)
            = count_list W w)
     \<and> set (results_of (replicate (length W) GetNextWord) s g) = word_result ` set (allWords s)"
proof -
  have st: "allWords s = W \<and> W \<noteq> [] \<and> (remainingWords s = [] \<or> mset (remainingWords s) = mset W)"
    using assms(3) constructor_cycle_start [OF _ assms(1), of W s g] by auto
  then have m: "mset (results_of (replicate (length W) GetNextWord) s g) = image_mset word_result (mset W)"
    using full_cycle [OF assms(2), of s] by auto
  have "set_mset (mset (results_of (replicate (length W) GetNextWord) s g))
      = set_mset (image_mset word_result (mset W))" using m by simp
  then have "set (results_of (replicate (length W) GetNextWord) s g) = word_result ` set W"
    by simp
  moreover have "length (results_of (replicate (length W) GetNextWord) s g) = length W"
    using mset_eq_length [of "results_of (replicate (length W) GetNextWord) s g" "map word_result W"] m
    by simp
  ultimately show ?thesis using m st count_list_word_result [OF m] by simp
qed

theorem next_word_cycle_exactly_once_witness:
  "wf_rng (\<lambda>n. 1 / 2)
   \<and> constructor (ArgWords [''apple'', ''banana'', ''challenge'']) (\<lambda>n. 1 / 2)
       = Inr (\<lparr>allWords = [''apple'', ''banana'', ''challenge''],
               remainingWords = [''apple'', ''challenge'', ''banana''],
               wordsSpoken = 0, currentWord = Null\<rparr>, \<lambda>n. 1 / 2)
   \<and> results_of (replicate 3 GetNextWord)
         \<lparr>allWords = [''apple'', ''banana'', ''challenge''],
          remainingWords = [''apple'', ''challenge'', ''banana''],
          wordsSpoken = 0, currentWord = Null\<rparr> (\<lambda>n. 1 / 2)
       = [word_result ''challenge'', word_result ''banana'', word_result ''apple'']
   \<and> mset (results_of (replicate (length [''apple'', ''banana'', ''challenge'']) GetNextWord)
         \<lparr>allWords = [''apple'', ''banana'', ''challenge''],
          remainingWords = [''apple'', ''challenge'', ''banana''],
          wordsSpoken = 0, currentWord = Null\<rparr> (\<lambda>n. 1 / 2))
       = mset (map word_result [''apple'', ''banana'', ''challenge''])"
proof -
  have h1: "wf_rng (\<lambda>n. 1 / 2)" by (simp add: wf_rng_def)
  have h2: "constructor (ArgWords [''apple'', ''banana'', ''challenge'']) (\<lambda>n. 1 / 2)
       = Inr (\<lparr>allWords = [''apple'', ''banana'', ''challenge''],
               remainingWords = [''apple'', ''challenge'', ''banana''],
               wordsSpoken = 0, currentWord = Null\<rparr>, \<lambda>n. 1 / 2)"
    by (simp add: constructor_def shuffle_def random_index_def random_def exchange_def)
  have h3: "results_of (replicate 3 GetNextWord)
         \<lparr>allWords = [''apple'', ''banana'', ''challenge''],
          remainingWords = [''apple'', ''challenge'', ''banana''],
          wordsSpoken = 0, currentWord = Null\<rparr> (\<lambda>n. 1 / 2)
       = [word_result ''challenge'', word_result ''banana'', word_result ''apple'']"
    by (simp add: results_of_def numeral_3_eq_3 getNextWord_def random_index_def random_def
        splice1_def first_of_def word_result_def)
  from next_word_cycle_exactly_once [OF h1 h1 disjI1 [OF h2]]
  have "mset (results_of (replicate (length [''apple'', ''banana'', ''challenge'']) GetNextWord)
         \<lparr>allWords = [''apple'', ''banana'', ''challenge''],
          remainingWords = [''apple'', ''challenge'', ''banana''],
          wordsSpoken = 0, currentWord = Null\<rparr> (\<lambda>n. 1 / 2))
       = mset (map word_result [''apple'', ''banana'', ''challenge''])"
    by (rule conjunct1)
  with h1 h2 h3 show ?thesis by (intro conjI)
qed

text \<open>
  C3: for the session the constructor returns for \<open>W\<close> (of size \<open>n\<close>), every call of
  \<^verbatim>\<open>getNextWord\<close> succeeds, however many were made before: \<open>k\<close> calls return \<open>k\<close>
  words of \<open>W\<close>, for every \<open>k\<close>, and after any calls of any methods the next call of
  \<^verbatim>\<open>getNextWord\<close> returns a word of \<open>W\<close>. After \<open>c\<close> full cycles (\<open>c * n\<close> calls) the next
  \<open>n\<close> calls again return exactly the multiset of \<open>W\<close>, and for \<open>c > 0\<close> the pool is
  empty there, so call \<open>c * n + 1\<close> begins a new cycle. A call that finds the pool empty
  replaces it by \<^verbatim>\<open>shuffle(allWords)\<close>, a permutation of \<open>W\<close>, and draws from that: the
  word returned and the pool left make up the reshuffled pool.
\<close>

theorem next_word_never_fails:
  assumes "wf_rng g0" and "constructor (ArgWords W) g0 = Inr (s, g)"
  shows "(\<forall>k. length (results_of (replicate k GetNextWord) s g) = k
            \<and> set (results_of (replicate k GetNextWord) s g) \<subseteq> word_result ` set W)
     \<and> (\<forall>cs. \<exists>w. w \<in> set W
            \<and> fst (getNextWord (state_after cs s g) (rng_after cs s g)) = Str w)
     \<and> (\<forall>c. mset (results_of (replicate (length W) GetNextWord)
                  (state_after (replicate (c * length W) GetNextWord) s g)
                  (rng_after (replicate (c * length W) GetNextWord) s g))
              = mset (map word_result W))
     \<and> (\<forall>c. 0 < c \<longrightarrow>
            remainingWords (state_after (replicate (c * length W) GetNextWord) s g) = [])
     \<and> (\<forall>t h. wf_rng h \<and> allWords t = W \<and> remainingWords t = [] \<longrightarrow>
            (\<exists>w. fst (getNextWord t h) = Str w
               \<and> add_mset w (mset (remainingWords (fst (snd (getNextWord t h)))))
                   = mset (fst (shuffle W h))
               \<and> mset (fst (shuffle W h)) = mset W))"
proof -
  from constructor_cycle_start [OF assms(2,1)]
  have a: "allWords s = W" and ne: "W \<noteq> []" and m: "mset (remainingWords s) = mset W"
    and wf: "wf_rng g" by simp_all
  have ne': "allWords s \<noteq> []" using a ne by simp
  have sub: "set (remainingWords s) \<subseteq> set (allWords s)"
    using mset_eq_setD [OF m] a by simp
  have st: "remainingWords s = [] \<or> mset (remainingWords s) = mset (allWords s)"
    using m a by simp
  have 1: "\<forall>k. length (results_of (replicate k GetNextWord) s g) = k
            \<and> set (results_of (replicate k GetNextWord) s g) \<subseteq> word_result ` set W"
    using draws_succeed [OF wf ne' sub] a by simp
  have 2: "mset (results_of (replicate (length W) GetNextWord)
                  (state_after (replicate (c * length W) GetNextWord) s g)
                  (rng_after (replicate (c * length W) GetNextWord) s g))
              = mset (map word_result W)" for c
  proof -
    let ?t = "state_after (replicate (c * length W) GetNextWord) s g"
    let ?h = "rng_after (replicate (c * length W) GetNextWord) s g"
    from after_cycles [OF wf ne' st, of c]
    have ta: "allWords ?t = W" and wh: "wf_rng ?h"
      and ts: "remainingWords ?t = [] \<or> mset (remainingWords ?t) = mset (allWords ?t)"
      using a by simp_all
    have tne: "allWords ?t \<noteq> []" using ta ne by simp
    from full_cycle [OF wh tne ts] show ?thesis using ta by simp
  qed
  have 3: "0 < c \<longrightarrow>
            remainingWords (state_after (replicate (c * length W) GetNextWord) s g) = []" for c
    using after_cycles [OF wf ne' st, of c] a by simp
  have 4: "\<exists>w. fst (getNextWord t h) = Str w
               \<and> add_mset w (mset (remainingWords (fst (snd (getNextWord t h)))))
                   = mset (fst (shuffle W h))
               \<and> mset (fst (shuffle W h)) = mset W"
    if "wf_rng h \<and> allWords t = W \<and> remainingWords t = []" for t h
  proof -
    from that have wh: "wf_rng h" and ta: "allWords t = W" and tr: "remainingWords t = []"
      by simp_all
    have tne: "allWords t \<noteq> []" using ta ne by simp
    from getNextWord_draw [OF wh tne]
    obtain pool w where H:
      "(remainingWords t = [] \<longrightarrow> pool = fst (shuffle (allWords t) h))
        \<and> fst (getNextWord t h) = Str w
        \<and> add_mset w (mset (remainingWords (fst (snd (getNextWord t h))))) = mset pool"
      by blast
    then show ?thesis using tr ta mset_shuffle [OF wh, of W] by auto
  qed
  have 5: "\<forall>cs. \<exists>w. w \<in> set W
            \<and> fst (getNextWord (state_after cs s g) (rng_after cs s g)) = Str w"
    using reachable_next_word_succeeds [OF assms] by blast
  show ?thesis using 1 2 3 4 5 by blast
qed

theorem next_word_never_fails_witness:
  "wf_rng (\<lambda>n. 1 / 2)
   \<and> constructor (ArgWords [''x'', ''y'']) (\<lambda>n. 1 / 2)
       = Inr (\<lparr>allWords = [''x'', ''y''], remainingWords = [''x'', ''y''],
               wordsSpoken = 0, currentWord = Null\<rparr>, \<lambda>n. 1 / 2)
   \<and> results_of (replicate 3 GetNextWord)
         \<lparr>allWords = [''x'', ''y''], remainingWords = [''x'', ''y''],
          wordsSpoken = 0, currentWord = Null\<rparr> (\<lambda>n. 1 / 2)
       = [word_result ''y'', word_result ''x'', word_result ''y'']
   \<and> set (results_of (replicate 3 GetNextWord)
         \<lparr>allWords = [''x'', ''y''], remainingWords = [''x'', ''y''],
          wordsSpoken = 0, currentWord = Null\<rparr> (\<lambda>n. 1 / 2))
       \<subseteq> word_result ` set [''x'', ''y'']
   \<and> mset (results_of (replicate (length [''x'', ''y'']) GetNextWord)
         (state_after (replicate (1 * length [''x'', ''y'']) GetNextWord)
            \<lparr>allWords = [''x'', ''y''], remainingWords = [''x'', ''y''],
             wordsSpoken = 0, currentWord = Null\<rparr> (\<lambda>n. 1 / 2))
         (rng_after (replicate (1 * length [''x'', ''y'']) GetNextWord)
            \<lparr>allWords = [''x'', ''y''], remainingWords = [''x'', ''y''],
             wordsSpoken = 0, currentWord = Null\<rparr> (\<lambda>n. 1 / 2)))
       = mset (map word_result [''x'', ''y''])"
proof -
  have h1: "wf_rng (\<lambda>n. 1 / 2)" by (simp add: wf_rng_def)
  have h2: "constructor (ArgWords [''x'', ''y'']) (\<lambda>n. 1 / 2)
       = Inr (\<lparr>allWords = [''x'', ''y''], remainingWords = [''x'', ''y''],
               wordsSpoken = 0, currentWord = Null\<rparr>, \<lambda>n. 1 / 2)"
    by (simp add: constructor_def shuffle_def random_index_def random_def exchange_def)
  have h3: "results_of (replicate 3 GetNextWord)
         \<lparr>allWords = [''x'', ''y''], remainingWords = [''x'', ''y''],
          wordsSpoken = 0, currentWord = Null\<rparr> (\<lambda>n. 1 / 2)
       = [word_result ''y'', word_result ''x'', word_result ''y'']"
    by (simp add: results_of_def numeral_3_eq_3 getNextWord_def shuffle_def random_index_def
        random_def exchange_def splice1_def first_of_def word_result_def)
  note T = next_word_never_fails [OF h1 h2]
  from T have c1: "set (results_of (replicate 3 GetNextWord)
         \<lparr>allWords = [''x'', ''y''], remainingWords = [''x'', ''y''],
          wordsSpoken = 0, currentWord = Null\<rparr> (\<lambda>n. 1 / 2))
       \<subseteq> word_result ` set [''x'', ''y'']"
    by blast
  from T have c2: "mset (results_of (replicate (length [''x'', ''y'']) GetNextWord)
         (state_after (replicate (1 * length [''x'', ''y'']) GetNextWord)
            \<lparr>allWords = [''x'', ''y''], remainingWords = [''x'', ''y''],
             wordsSpoken = 0, currentWord = Null\<rparr> (\<lambda>n. 1 / 2))
         (rng_after (replicate (1 * length [''x'', ''y'']) GetNextWord)
            \<lparr>allWords = [''x'', ''y''], remainingWords = [''x'', ''y''],
             wordsSpoken = 0, currentWord = Null\<rparr> (\<lambda>n. 1 / 2)))
       = mset (map word_result [''x'', ''y''])"
    by blast
  from h1 h2 h3 c1 c2 show ?thesis by (intro conjI)
qed

section \<open>Repeating the current word\<close>

text \<open>
  C4: when a call of \<^verbatim>\<open>getNextWord\<close> has returned \<open>w\<close>, any number \<open>k\<close> of calls of
  \<^verbatim>\<open>getCurrentWord\<close> after it return \<open>w\<close> each and leave the whole session (and the
  random source) as the call of \<^verbatim>\<open>getNextWord\<close> left it; in particular
  \<^verbatim>\<open>getWordsSpoken()\<close> and \<^verbatim>\<open>getRemainingCount()\<close> are unchanged.
\<close>

theorem repeat_current_word_frame:
  assumes "invoke GetNextWord s g = (RWord w, s', g')"
  shows "run (replicate k GetCurrentWord) s' g' = (replicate k (RWord w), s', g')
     \<and> results_of (replicate k GetCurrentWord) s' g' = replicate k (RWord w)
     \<and> state_after (replicate k GetCurrentWord) s' g' = s'
     \<and> getWordsSpoken (state_after (replicate k GetCurrentWord) s' g') = getWordsSpoken s'
     \<and> getRemainingCount (state_after (replicate k GetCurrentWord) s' g') = getRemainingCount s'"
proof -
  from assms have "w = fst (getNextWord s g)" "s' = fst (snd (getNextWord s g))"
    by (simp_all add: invoke_proj del: invoke.simps(1))
  then have "currentWord s' = w" by (simp add: getNextWord_fields)
  then have "run (replicate k GetCurrentWord) s' g' = (replicate k (RWord w), s', g')"
    by (simp add: run_accessors)
  then show ?thesis by (simp add: results_of_def state_after_def)
qed

theorem repeat_current_word_frame_witness:
  "invoke GetNextWord
     \<lparr>allWords = [''x'', ''y''], remainingWords = [''x'', ''y''],
      wordsSpoken = 0, currentWord = Null\<rparr> (\<lambda>n. 1 / 2)
     = (RWord (Str ''y''),
        \<lparr>allWords = [''x'', ''y''], remainingWords = [''x''],
         wordsSpoken = 1, currentWord = Str ''y''\<rparr>, \<lambda>n. 1 / 2)
   \<and> run (replicate 2 GetCurrentWord)
        \<lparr>allWords = [''x'', ''y''], remainingWords = [''x''],
         wordsSpoken = 1, currentWord = Str ''y''\<rparr> (\<lambda>n. 1 / 2)
     = (replicate 2 (RWord (Str ''y'')),
        \<lparr>allWords = [''x'', ''y''], remainingWords = [''x''],
         wordsSpoken = 1, currentWord = Str ''y''\<rparr>, \<lambda>n. 1 / 2)"
proof -
  have h: "invoke GetNextWord
     \<lparr>allWords = [''x'', ''y''], remainingWords = [''x'', ''y''],
      wordsSpoken = 0, currentWord = Null\<rparr> (\<lambda>n. 1 / 2)
     = (RWord (Str ''y''),
        \<lparr>allWords = [''x'', ''y''], remainingWords = [''x''],
         wordsSpoken = 1, currentWord = Str ''y''\<rparr>, \<lambda>n. 1 / 2)"
    by (simp add: getNextWord_def random_index_def random_def splice1_def first_of_def)
  from repeat_current_word_frame [OF h, of 2] have
    "run (replicate 2 GetCurrentWord)
        \<lparr>allWords = [''x'', ''y''], remainingWords = [''x''],
         wordsSpoken = 1, currentWord = Str ''y''\<rparr> (\<lambda>n. 1 / 2)
     = (replicate 2 (RWord (Str ''y'')),
        \<lparr>allWords = [''x'', ''y''], remainingWords = [''x''],
         wordsSpoken = 1, currentWord = Str ''y''\<rparr>, \<lambda>n. 1 / 2)"
    by (rule conjunct1)
  with h show ?thesis by (intro conjI)
qed

section \<open>The counter of spoken words\<close>

text \<open>
  C5: \<^verbatim>\<open>getWordsSpoken()\<close> is 0 after construction. A call of \<^verbatim>\<open>getNextWord\<close> adds
  exactly 1 to it, whether or not the call reshuffles; \<^verbatim>\<open>reset\<close> sets it to 0; every
  other method leaves it as it is. Along calls without a \<^verbatim>\<open>reset\<close> it grows by the
  number of calls of \<^verbatim>\<open>getNextWord\<close>, so it never decreases; a call after which it is
  smaller is a \<^verbatim>\<open>reset\<close>. In a constructed session it is the number of calls of
  \<^verbatim>\<open>getNextWord\<close> since the last \<^verbatim>\<open>reset\<close> (since construction when there was none).
\<close>

theorem words_spoken_counter:
  "(constructor arg g0 = Inr (s0, g1) \<longrightarrow>
      getWordsSpoken s0 = 0
      \<and> getWordsSpoken (state_after cs s0 g1) = int (count_list (since_reset cs) GetNextWord))
   \<and> getWordsSpoken (fst (snd (invoke c s g)))
       = (if c = GetNextWord then getWordsSpoken s + 1
          else if c = Reset then 0 else getWordsSpoken s)
   \<and> getWordsSpoken (fst (snd (getNextWord s g))) = getWordsSpoken s + 1
   \<and> (Reset \<notin> set cs \<longrightarrow>
        getWordsSpoken (state_after cs s g) = getWordsSpoken s + int (count_list cs GetNextWord))
   \<and> (Reset \<notin> set ds \<longrightarrow>
        getWordsSpoken (state_after cs s g) \<le> getWordsSpoken (state_after (cs @ ds) s g))
   \<and> (getWordsSpoken (state_after (cs @ [c]) s g) < getWordsSpoken (state_after cs s g)
        \<longrightarrow> c = Reset)"
proof -
  have 0: "wordsSpoken s0 = 0" if "constructor arg g0 = Inr (s0, g1)"
    using that by (auto simp: constructor_def split: words_arg.splits if_splits prod.splits)
  have 1: "constructor arg g0 = Inr (s0, g1) \<longrightarrow>
      getWordsSpoken s0 = 0
      \<and> getWordsSpoken (state_after cs s0 g1) = int (count_list (since_reset cs) GetNextWord)"
    using 0 by (simp add: getWordsSpoken_def run_wordsSpoken_since_reset)
  have 2: "getWordsSpoken (fst (snd (invoke c s g)))
       = (if c = GetNextWord then getWordsSpoken s + 1
          else if c = Reset then 0 else getWordsSpoken s)"
    by (simp add: getWordsSpoken_def invoke_wordsSpoken)
  have 6: "getWordsSpoken (fst (snd (getNextWord s g))) = getWordsSpoken s + 1"
    by (simp add: getWordsSpoken_def getNextWord_fields)
  have 3: "Reset \<notin> set cs \<longrightarrow>
        getWordsSpoken (state_after cs s g) = getWordsSpoken s + int (count_list cs GetNextWord)"
    by (simp add: getWordsSpoken_def run_wordsSpoken)
  have 4: "Reset \<notin> set ds \<longrightarrow>
        getWordsSpoken (state_after cs s g) \<le> getWordsSpoken (state_after (cs @ ds) s g)"
    by (simp add: getWordsSpoken_def state_after_append run_wordsSpoken)
  have 5: "getWordsSpoken (state_after (cs @ [c]) s g) < getWordsSpoken (state_after cs s g)
        \<longrightarrow> c = Reset"
    by (simp add: getWordsSpoken_def state_after_append run_Cons_proj run_Nil_proj
        invoke_wordsSpoken)
  from 1 2 6 3 4 5 show ?thesis by (intro conjI)
qed

theorem words_spoken_counter_witness:
  "constructor (ArgWords [''x'', ''y'']) (\<lambda>n. 1 / 2)
       = Inr (\<lparr>allWords = [''x'', ''y''], remainingWords = [''x'', ''y''],
               wordsSpoken = 0, currentWord = Null\<rparr>, \<lambda>n. 1 / 2)
   \<and> Reset \<notin> set [GetNextWord, GetCurrentWord, GetNextWord, GetNextWord]
   \<and> Reset \<notin> set [GetCurrentWord, GetNextWord]
   \<and> getWordsSpoken (state_after ([GetNextWord, GetCurrentWord, GetNextWord, GetNextWord] @ [Reset])
        \<lparr>allWords = [''x'', ''y''], remainingWords = [''x'', ''y''],
         wordsSpoken = 0, currentWord = Null\<rparr> (\<lambda>n. 1 / 2)) = 0
   \<and> getWordsSpoken (state_after [GetNextWord, GetCurrentWord, GetNextWord, GetNextWord]
        \<lparr>allWords = [''x'', ''y''], remainingWords = [''x'', ''y''],
         wordsSpoken = 0, currentWord = Null\<rparr> (\<lambda>n. 1 / 2)) = 3
   \<and> getWordsSpoken (state_after
          ([GetNextWord, GetCurrentWord, GetNextWord, GetNextWord] @ [GetCurrentWord, GetNextWord])
        \<lparr>allWords = [''x'', ''y''], remainingWords = [''x'', ''y''],
         wordsSpoken = 0, currentWord = Null\<rparr> (\<lambda>n. 1 / 2)) = 4
   \<and> getWordsSpoken (state_after [GetNextWord, GetCurrentWord, GetNextWord, GetNextWord]
        \<lparr>allWords = [''x'', ''y''], remainingWords = [''x'', ''y''],
         wordsSpoken = 0, currentWord = Null\<rparr> (\<lambda>n. 1 / 2))
       = int (count_list (since_reset [GetNextWord, GetCurrentWord, GetNextWord, GetNextWord])
           GetNextWord)
   \<and> getWordsSpoken (state_after [GetNextWord, GetCurrentWord, GetNextWord, GetNextWord]
        \<lparr>allWords = [''x'', ''y''], remainingWords = [''x'', ''y''],
         wordsSpoken = 0, currentWord = Null\<rparr> (\<lambda>n. 1 / 2))
       \<le> getWordsSpoken (state_after
          ([GetNextWord, GetCurrentWord, GetNextWord, GetNextWord] @ [GetCurrentWord, GetNextWord])
        \<lparr>allWords = [''x'', ''y''], remainingWords = [''x'', ''y''],
         wordsSpoken = 0, currentWord = Null\<rparr> (\<lambda>n. 1 / 2))"
proof -
  let ?S = "\<lparr>allWords = [''x'', ''y''], remainingWords = [''x'', ''y''],
               wordsSpoken = 0, currentWord = Null\<rparr>"
  let ?g = "\<lambda>n::nat. 1 / 2 :: real"
  let ?cs = "[GetNextWord, GetCurrentWord, GetNextWord, GetNextWord]"
  let ?ds = "[GetCurrentWord, GetNextWord]"
  have h1: "constructor (ArgWords [''x'', ''y'']) ?g = Inr (?S, ?g)"
    by (simp add: eval_defs)
  have h2: "Reset \<notin> set ?cs" by simp
  have h3: "Reset \<notin> set ?ds" by simp
  have e1: "getWordsSpoken (state_after (?cs @ [Reset]) ?S ?g) = 0"
    by (simp add: eval_defs split: prod.splits)
  have e2: "getWordsSpoken (state_after ?cs ?S ?g) = 3"
    by (simp add: eval_defs)
  have e3: "getWordsSpoken (state_after (?cs @ ?ds) ?S ?g) = 4"
    by (simp add: eval_defs)
  note T = words_spoken_counter [of "ArgWords [''x'', ''y'']" ?g ?S ?g ?cs Reset ?S ?g ?ds]
  from T h1 have c1: "getWordsSpoken (state_after ?cs ?S ?g)
       = int (count_list (since_reset ?cs) GetNextWord)" by blast
  from T h3 have c2: "getWordsSpoken (state_after ?cs ?S ?g)
       \<le> getWordsSpoken (state_after (?cs @ ?ds) ?S ?g)" by blast
  from h1 h2 h3 e1 e2 e3 c1 c2 show ?thesis by (intro conjI)
qed

section \<open>The current word before the first draw\<close>

text \<open>
  C6: right after construction, and right after a \<^verbatim>\<open>reset\<close>, \<^verbatim>\<open>getCurrentWord\<close>
  returns \<^verbatim>\<open>null\<close> (a value, no exception) and \<^verbatim>\<open>hasCurrentWord\<close> is false; a call
  of \<^verbatim>\<open>getNextWord\<close> makes \<^verbatim>\<open>hasCurrentWord\<close> true. After any calls on a constructed
  session, \<^verbatim>\<open>hasCurrentWord\<close> is true exactly when \<^verbatim>\<open>getNextWord\<close> was called since
  the last \<^verbatim>\<open>reset\<close> (since construction when there was none), and where it is false
  \<^verbatim>\<open>getCurrentWord\<close> returns \<^verbatim>\<open>null\<close> and changes nothing.
\<close>

theorem has_current_word_iff:
  assumes "constructor (ArgWords W) g0 = Inr (s, g)"
  shows "getCurrentWord s = Null \<and> \<not> hasCurrentWord s
     \<and> getCurrentWord (fst (reset t h)) = Null \<and> \<not> hasCurrentWord (fst (reset t h))
     \<and> hasCurrentWord (fst (snd (getNextWord t h)))
     \<and> (hasCurrentWord (state_after cs s g) \<longleftrightarrow> GetNextWord \<in> set (since_reset cs))
     \<and> (\<not> hasCurrentWord (state_after cs s g) \<longrightarrow>
          invoke GetCurrentWord (state_after cs s g) (rng_after cs s g)
            = (RWord Null, state_after cs s g, rng_after cs s g))"
proof -
  have 0: "currentWord s = Null"
    using assms by (auto simp: constructor_def split: if_splits prod.splits)
  have 1: "hasCurrentWord (state_after cs s g) \<longleftrightarrow> GetNextWord \<in> set (since_reset cs)"
    using 0 by (simp add: hasCurrentWord_def run_currentWord_since_reset)
  have 2: "\<not> hasCurrentWord (state_after cs s g) \<longrightarrow>
          invoke GetCurrentWord (state_after cs s g) (rng_after cs s g)
            = (RWord Null, state_after cs s g, rng_after cs s g)"
    by (simp add: hasCurrentWord_def getCurrentWord_def)
  have 3: "hasCurrentWord (fst (snd (getNextWord t h)))"
    by (simp add: hasCurrentWord_def getNextWord_fields)
  from 0 1 2 3 show ?thesis
    by (simp add: hasCurrentWord_def getCurrentWord_def reset_fields)
qed

theorem has_current_word_iff_witness:
  "constructor (ArgWords [''x'', ''y'']) (\<lambda>n. 1 / 2)
       = Inr (\<lparr>allWords = [''x'', ''y''], remainingWords = [''x'', ''y''],
               wordsSpoken = 0, currentWord = Null\<rparr>, \<lambda>n. 1 / 2)
   \<and> \<not> hasCurrentWord (state_after [GetNextWord, Reset, GetCurrentWord]
        \<lparr>allWords = [''x'', ''y''], remainingWords = [''x'', ''y''],
         wordsSpoken = 0, currentWord = Null\<rparr> (\<lambda>n. 1 / 2))
   \<and> GetNextWord \<notin> set (since_reset [GetNextWord, Reset, GetCurrentWord])
   \<and> invoke GetCurrentWord
        (state_after [GetNextWord, Reset, GetCurrentWord]
          \<lparr>allWords = [''x'', ''y''], remainingWords = [''x'', ''y''],
           wordsSpoken = 0, currentWord = Null\<rparr> (\<lambda>n. 1 / 2))
        (rng_after [GetNextWord, Reset, GetCurrentWord]
          \<lparr>allWords = [''x'', ''y''], remainingWords = [''x'', ''y''],
           wordsSpoken = 0, currentWord = Null\<rparr> (\<lambda>n. 1 / 2))
     = (RWord Null,
        state_after [GetNextWord, Reset, GetCurrentWord]
          \<lparr>allWords = [''x'', ''y''], remainingWords = [''x'', ''y''],
           wordsSpoken = 0, currentWord = Null\<rparr> (\<lambda>n. 1 / 2),
        rng_after [GetNextWord, Reset, GetCurrentWord]
          \<lparr>allWords = [''x'', ''y''], remainingWords = [''x'', ''y''],
           wordsSpoken = 0, currentWord = Null\<rparr> (\<lambda>n. 1 / 2))"
proof -
  let ?S = "\<lparr>allWords = [''x'', ''y''], remainingWords = [''x'', ''y''],
               wordsSpoken = 0, currentWord = Null\<rparr>"
  let ?g = "\<lambda>n::nat. 1 / 2 :: real"
  let ?cs = "[GetNextWord, Reset, GetCurrentWord]"
  have h1: "constructor (ArgWords [''x'', ''y'']) ?g = Inr (?S, ?g)"
    by (simp add: eval_defs)
  have h2: "\<not> hasCurrentWord (state_after ?cs ?S ?g)"
    by (simp add: eval_defs split: prod.splits)
  note T = has_current_word_iff [OF h1, of ?S ?g ?cs]
  from T h2 have c1: "GetNextWord \<notin> set (since_reset ?cs)" by blast
  from T h2 have c2: "invoke GetCurrentWord (state_after ?cs ?S ?g) (rng_after ?cs ?S ?g)
     = (RWord Null, state_after ?cs ?S ?g, rng_after ?cs ?S ?g)" by blast
  from h1 h2 c1 c2 show ?thesis by (intro conjI)
qed

section \<open>Reset\<close>

text \<open>
  C7: at any point of the life of a session constructed for \<open>W\<close>, \<^verbatim>\<open>reset()\<close> leaves
  exactly the session (and random source) that constructing for \<open>W\<close> with the same random
  source gives: \<^verbatim>\<open>allWords\<close> is still \<open>W\<close>, the counter is 0, the current word is
  \<^verbatim>\<open>null\<close>, and the pool is \<^verbatim>\<open>shuffle(W)\<close>, a permutation of \<open>W\<close> when the random
  source returns numbers in \<open>[0, 1)\<close>.
\<close>

theorem reset_as_constructor:
  assumes "constructor (ArgWords W) g0 = Inr (s0, g1)"
  shows "constructor (ArgWords W) h = Inr (reset (state_after cs s0 g1) h)
     \<and> allWords (fst (reset (state_after cs s0 g1) h)) = W
     \<and> wordsSpoken (fst (reset (state_after cs s0 g1) h)) = 0
     \<and> currentWord (fst (reset (state_after cs s0 g1) h)) = Null
     \<and> remainingWords (fst (reset (state_after cs s0 g1) h)) = fst (shuffle W h)
     \<and> (wf_rng h \<longrightarrow> mset (remainingWords (fst (reset (state_after cs s0 g1) h))) = mset W)"
proof -
  have a0: "allWords s0 = W" and ne: "W \<noteq> []"
    using assms by (auto simp: constructor_def split: if_splits prod.splits)
  have a: "allWords (state_after cs s0 g1) = W" using a0 by (simp add: run_allWords)
  have "constructor (ArgWords W) h = Inr (reset (state_after cs s0 g1) h)"
    using ne a by (simp add: constructor_def reset_def split: prod.splits)
  then show ?thesis using a by (simp add: reset_fields mset_shuffle)
qed

theorem reset_as_constructor_witness:
  "constructor (ArgWords [''x'', ''y'']) (\<lambda>n. 1 / 2)
       = Inr (\<lparr>allWords = [''x'', ''y''], remainingWords = [''x'', ''y''],
               wordsSpoken = 0, currentWord = Null\<rparr>, \<lambda>n. 1 / 2)
   \<and> wf_rng (\<lambda>n. 0)
   \<and> reset (state_after [GetNextWord]
        \<lparr>allWords = [''x'', ''y''], remainingWords = [''x'', ''y''],
         wordsSpoken = 0, currentWord = Null\<rparr> (\<lambda>n. 1 / 2)) (\<lambda>n. 0)
       = (\<lparr>allWords = [''x'', ''y''], remainingWords = [''y'', ''x''],
               wordsSpoken = 0, currentWord = Null\<rparr>, \<lambda>n. 0)
   \<and> constructor (ArgWords [''x'', ''y'']) (\<lambda>n. 0)
       = Inr (reset (state_after [GetNextWord]
        \<lparr>allWords = [''x'', ''y''], remainingWords = [''x'', ''y''],
         wordsSpoken = 0, currentWord = Null\<rparr> (\<lambda>n. 1 / 2)) (\<lambda>n. 0))
   \<and> mset (remainingWords (fst (reset (state_after [GetNextWord]
        \<lparr>allWords = [''x'', ''y''], remainingWords = [''x'', ''y''],
         wordsSpoken = 0, currentWord = Null\<rparr> (\<lambda>n. 1 / 2)) (\<lambda>n. 0))))
       = mset [''x'', ''y'']"
proof -
  let ?S = "\<lparr>allWords = [''x'', ''y''], remainingWords = [''x'', ''y''],
               wordsSpoken = 0, currentWord = Null\<rparr>"
  let ?g = "\<lambda>n::nat. 1 / 2 :: real"
  let ?h = "\<lambda>n::nat. 0 :: real"
  have h1: "constructor (ArgWords [''x'', ''y'']) ?g = Inr (?S, ?g)"
    by (simp add: eval_defs)
  have h2: "wf_rng ?h" by (simp add: wf_rng_def)
  have e1: "reset (state_after [GetNextWord] ?S ?g) ?h
       = (\<lparr>allWords = [''x'', ''y''], remainingWords = [''y'', ''x''],
               wordsSpoken = 0, currentWord = Null\<rparr>, ?h)"
    by (simp add: eval_defs)
  note T = reset_as_constructor [OF h1, of ?h "[GetNextWord]"]
  from T have c1: "constructor (ArgWords [''x'', ''y'']) ?h
       = Inr (reset (state_after [GetNextWord] ?S ?g) ?h)" by (rule conjunct1)
  from T h2 have c2: "mset (remainingWords (fst (reset (state_after [GetNextWord] ?S ?g) ?h)))
       = mset [''x'', ''y'']" by blast
  from h1 h2 e1 c1 c2 show ?thesis by (intro conjI)
qed

section \<open>The shuffle\<close>




section \<open>The word list is never changed\<close>

text \<open>
  C9: no method changes \<^verbatim>\<open>allWords\<close>, so after any calls on a session constructed for
  \<open>W\<close>, \<^verbatim>\<open>allWords\<close> is \<open>W\<close> and \<^verbatim>\<open>getTotalWords()\<close> is the length of \<open>W\<close>. The
  pool is always a sub-multiset of \<open>W\<close>, so \<^verbatim>\<open>getRemainingCount()\<close> lies between 0 and
  \<^verbatim>\<open>getTotalWords()\<close>. The random source returns numbers in \<open>[0, 1)\<close>.
\<close>

theorem all_words_immutable:
  assumes "wf_rng g0" and "constructor (ArgWords W) g0 = Inr (s, g)"
  shows "allWords (state_after cs s g) = W
     \<and> getTotalWords (state_after cs s g) = length W
     \<and> allWords (fst (snd (invoke c t h))) = allWords t
     \<and> getTotalWords (fst (snd (invoke c t h))) = getTotalWords t
     \<and> mset (remainingWords (state_after cs s g)) \<subseteq># mset W
     \<and> getRemainingCount (state_after cs s g) \<le> getTotalWords (state_after cs s g)"
proof -
  from constructor_cycle_start [OF assms(2,1)]
  have a: "allWords s = W" and ne: "W \<noteq> []" and m: "mset (remainingWords s) = mset W"
    and wf: "wf_rng g" by simp_all
  have ne': "allWords s \<noteq> []" using a ne by simp
  have sub: "mset (remainingWords s) \<subseteq># mset (allWords s)" using m a by simp
  from run_pool_invariant [OF wf ne' sub, of cs]
  have p: "mset (remainingWords (state_after cs s g)) \<subseteq># mset W" using a by simp
  then have "size (mset (remainingWords (state_after cs s g))) \<le> size (mset W)"
    by (rule size_mset_mono)
  then have "length (remainingWords (state_after cs s g)) \<le> length W" by simp
  then show ?thesis using a p
    by (simp add: getTotalWords_def getRemainingCount_def run_allWords invoke_allWords)
qed

theorem all_words_immutable_witness:
  "wf_rng (\<lambda>n. 1 / 2)
   \<and> constructor (ArgWords [''x'', ''y'']) (\<lambda>n. 1 / 2)
       = Inr (\<lparr>allWords = [''x'', ''y''], remainingWords = [''x'', ''y''],
               wordsSpoken = 0, currentWord = Null\<rparr>, \<lambda>n. 1 / 2)
   \<and> state_after [GetNextWord, GetNextWord, GetCurrentWord, GetNextWord]
        \<lparr>allWords = [''x'', ''y''], remainingWords = [''x'', ''y''],
         wordsSpoken = 0, currentWord = Null\<rparr> (\<lambda>n. 1 / 2)
       = \<lparr>allWords = [''x'', ''y''], remainingWords = [''x''],
         wordsSpoken = 3, currentWord = Str ''y''\<rparr>
   \<and> allWords (state_after [GetNextWord, GetNextWord, GetCurrentWord, GetNextWord]
        \<lparr>allWords = [''x'', ''y''], remainingWords = [''x'', ''y''],
         wordsSpoken = 0, currentWord = Null\<rparr> (\<lambda>n. 1 / 2)) = [''x'', ''y'']
   \<and> getRemainingCount (state_after [GetNextWord, GetNextWord, GetCurrentWord, GetNextWord]
        \<lparr>allWords = [''x'', ''y''], remainingWords = [''x'', ''y''],
         wordsSpoken = 0, currentWord = Null\<rparr> (\<lambda>n. 1 / 2))
       \<le> getTotalWords (state_after [GetNextWord, GetNextWord, GetCurrentWord, GetNextWord]
        \<lparr>allWords = [''x'', ''y''], remainingWords = [''x'', ''y''],
         wordsSpoken = 0, currentWord = Null\<rparr> (\<lambda>n. 1 / 2))"
proof -
  let ?S = "\<lparr>allWords = [''x'', ''y''], remainingWords = [''x'', ''y''],
               wordsSpoken = 0, currentWord = Null\<rparr>"
  let ?g = "\<lambda>n::nat. 1 / 2 :: real"
  let ?cs = "[GetNextWord, GetNextWord, GetCurrentWord, GetNextWord]"
  have h1: "wf_rng ?g" by (simp add: wf_rng_def)
  have h2: "constructor (ArgWords [''x'', ''y'']) ?g = Inr (?S, ?g)"
    by (simp add: eval_defs)
  have e1: "state_after ?cs ?S ?g
       = \<lparr>allWords = [''x'', ''y''], remainingWords = [''x''],
         wordsSpoken = 3, currentWord = Str ''y''\<rparr>"
    by (simp add: eval_defs)
  note T = all_words_immutable [OF h1 h2, of ?cs]
  from T have c1: "allWords (state_after ?cs ?S ?g) = [''x'', ''y'']" by (rule conjunct1)
  from T have c2: "getRemainingCount (state_after ?cs ?S ?g)
       \<le> getTotalWords (state_after ?cs ?S ?g)" by blast
  from h1 h2 e1 c1 c2 show ?thesis by (intro conjI)
qed

section \<open>Construction guard\<close>

text \<open>
  C2: constructing a session with an empty word list throws the error
  ``Cannot create practice session with empty word list'', whatever the random source,
  and yields no session at all: the result is never an \<open>Inr\<close>.
\<close>

theorem constructor_empty_fails:
  "constructor (ArgWords []) g =
     Inl (Error ''Cannot create practice session with empty word list'')
   \<and> (\<nexists>sg. constructor (ArgWords []) g = Inr sg)"
  by (simp add: constructor_def)

text \<open>
  C10: a \<^verbatim>\<open>null\<close> or \<^verbatim>\<open>undefined\<close> argument throws the same error as the empty list
  and yields no session either.
\<close>

theorem constructor_null_undefined_fails:
  "constructor ArgNull g = constructor (ArgWords []) g
   \<and> constructor ArgUndefined g = constructor (ArgWords []) g
   \<and> constructor ArgNull g =
       Inl (Error ''Cannot create practice session with empty word list'')
   \<and> constructor ArgUndefined g =
       Inl (Error ''Cannot create practice session with empty word list'')
   \<and> (\<nexists>sg. constructor ArgNull g = Inr sg)
   \<and> (\<nexists>sg. constructor ArgUndefined g = Inr sg)"
  by (simp add: constructor_def)

end
